theory Spec2Isabelle
  imports Main "HOL-Library.Sublist"
begin

section \<open>The edit screen of src/App.js as a timed event system\<close>

subsection \<open>Notes, requests and the session state\<close>

text \<open>
  A note object as the edit screen holds it in \<^verbatim>\<open>useState\<close>. Every property can be
  missing (\<^verbatim>\<open>undefined\<close>, here \<open>None\<close>): the note of the "+" button has no \<^verbatim>\<open>id\<close>,
  and the spread of an undefined value has no property at all. Identifiers are strings:
  the list's \<^verbatim>\<open>keyExtractor\<close> returns \<^verbatim>\<open>item.id\<close>.
\<close>

record Note =
  nid :: "string option"
  title :: "string option"
  content :: "string option"

definition new_note :: Note where
  \<comment> \<open>\<^verbatim>\<open>navigation.navigate('Edit', { note: { title: '', content: '' } })\<close>\<close>
  "new_note = \<lparr>nid = None, title = Some [], content = Some []\<rparr>"

definition spread :: "Note option \<Rightarrow> Note" where
  \<comment> \<open>\<^verbatim>\<open>{ ...x }\<close>: a fresh copy of an object, the empty object for \<^verbatim>\<open>undefined\<close>\<close>
  "spread x = (case x of None \<Rightarrow> \<lparr>nid = None, title = None, content = None\<rparr> | Some n \<Rightarrow> n)"

datatype js_error = TypeError

definition get_title :: "Note option \<Rightarrow> js_error + string option" where
  \<comment> \<open>\<^verbatim>\<open>x.title\<close>: reading a property of \<^verbatim>\<open>undefined\<close> throws\<close>
  "get_title x = (case x of None \<Rightarrow> Inl TypeError | Some n \<Rightarrow> Inr (title n))"

definition truthy_id :: "Note \<Rightarrow> string option" where
  \<comment> \<open>the test \<^verbatim>\<open>if (note.id)\<close>: \<^verbatim>\<open>undefined\<close> and the empty string are falsy\<close>
  "truthy_id n = (case nid n of None \<Rightarrow> None | Some i \<Rightarrow> if i = [] then None else Some i)"

text \<open>The calls the screen makes on the mutation hooks of \<^verbatim>\<open>./db\<close>, with their arguments.\<close>

datatype request =
    AddNote "string option" "string option"
  | UpdateNote string "string option" "string option"
  | DeleteNote string

text \<open>
  The state of one mounted edit screen: the \<^verbatim>\<open>note\<close> state variable, the timeout the
  save effect has pending (its deadline and the note its \<^verbatim>\<open>saveNote\<close> closure captured),
  a clock in milliseconds, the requests handed to the hooks so far (oldest first), how many
  of them have not resolved yet, the number of \<^verbatim>\<open>saveNote\<close> promises rejected with an
  uncaught error, and whether the screen is still mounted.
\<close>

record session =
  note_state :: Note
  timer :: "(nat \<times> Note) option"
  clock :: nat
  issued :: "request list"
  adds_pending :: nat
  updates_pending :: nat
  deletes_pending :: nat
  uncaught :: nat
  mounted :: bool

datatype edit = Title string | Content string

datatype event =
    Edit edit
  | Wait nat
  | AddDone "Note option"
  | UpdateDone bool
  | PressDelete
  | DeleteDone bool
  | NavigateAway

subsection \<open>The save effect\<close>

text \<open>
  The save effect depends on \<^verbatim>\<open>[note, addNote, updateNote, navigation]\<close>. The two triggers
  and the navigation object are the same from one render to the next, so the effect runs
  after the first render and after every render with a new \<^verbatim>\<open>note\<close> object, and at
  most one timeout is pending at any time. \<^verbatim>\<open>saveNote\<close> is split at its \<^verbatim>\<open>await\<close>: the
  part before it runs when the timeout fires, the part after it when the request resolves.
\<close>

definition debounce :: nat where
  "debounce = 500"

definition save_effect :: "session \<Rightarrow> session" where
  \<comment> \<open>the effect with dependency \<^verbatim>\<open>note\<close>: its cleanup clears the old timeout, then
      \<^verbatim>\<open>setTimeout(saveNote, 500)\<close> with a closure over the note of this render\<close>
  "save_effect s = s\<lparr>timer := Some (clock s + debounce, note_state s)\<rparr>"

definition setNote :: "Note \<Rightarrow> session \<Rightarrow> session" where
  \<comment> \<open>every caller passes a fresh object, so the render that follows re-runs the save
      effect; on an unmounted screen the update is dropped\<close>
  "setNote n s = (if mounted s then save_effect (s\<lparr>note_state := n\<rparr>) else s)"

definition unmount :: "session \<Rightarrow> session" where
  \<comment> \<open>leaving the screen runs the effect's cleanup: \<^verbatim>\<open>clearTimeout(timeoutId)\<close>\<close>
  "unmount s = s\<lparr>timer := None, mounted := False\<rparr>"

definition mount :: "Note \<Rightarrow> session" where
  \<comment> \<open>\<^verbatim>\<open>useState(initialNote)\<close>; the effects run after the first render\<close>
  "mount n = save_effect \<lparr>note_state = n, timer = None, clock = 0, issued = [],
     adds_pending = 0, updates_pending = 0, deletes_pending = 0, uncaught = 0, mounted = True\<rparr>"

definition onChangeText :: "edit \<Rightarrow> Note \<Rightarrow> Note" where
  \<comment> \<open>\<^verbatim>\<open>(prev) => ({ ...prev, title: text })\<close> and the same for the content\<close>
  "onChangeText e prev = (case e of Title text \<Rightarrow> prev\<lparr>title := Some text\<rparr>
                                   | Content text \<Rightarrow> prev\<lparr>content := Some text\<rparr>)"

definition save_request :: "Note \<Rightarrow> request" where
  \<comment> \<open>the call \<^verbatim>\<open>saveNote\<close> makes for the note it captured\<close>
  "save_request n = (case truthy_id n of
       Some i \<Rightarrow> UpdateNote i (title n) (content n)
     | None \<Rightarrow> AddNote (title n) (content n))"

definition saveNote :: "Note \<Rightarrow> session \<Rightarrow> session" where
  \<comment> \<open>\<^verbatim>\<open>saveNote\<close> up to its \<^verbatim>\<open>await\<close>\<close>
  "saveNote n s = (case truthy_id n of
       Some i \<Rightarrow> s\<lparr>issued := issued s @ [UpdateNote i (title n) (content n)],
                   updates_pending := updates_pending s + 1\<rparr>
     | None \<Rightarrow> s\<lparr>issued := issued s @ [AddNote (title n) (content n)],
                 adds_pending := adds_pending s + 1\<rparr>)"

definition saveNote_added :: "Note option \<Rightarrow> session \<Rightarrow> session" where
  \<comment> \<open>\<^verbatim>\<open>saveNote\<close> after \<^verbatim>\<open>await addNote(...)\<close>, \<open>data\<close> being \<^verbatim>\<open>result.data\<close>:
      \<^verbatim>\<open>setNote({ ...result.data })\<close>, then the read of \<^verbatim>\<open>result.data.title\<close>\<close>
  "saveNote_added data s =
     (let s1 = setNote (spread data) s
      in case get_title data of
           Inl err \<Rightarrow> s1\<lparr>uncaught := uncaught s1 + 1\<rparr>
         | Inr t \<Rightarrow> s1)"

definition handleDelete :: "session \<Rightarrow> session" where
  \<comment> \<open>\<^verbatim>\<open>handleDelete\<close> up to its \<^verbatim>\<open>await\<close>; without an id it goes back at once\<close>
  "handleDelete s = (case truthy_id (note_state s) of
       Some i \<Rightarrow> s\<lparr>issued := issued s @ [DeleteNote i], deletes_pending := deletes_pending s + 1\<rparr>
     | None \<Rightarrow> unmount s)"

fun step :: "event \<Rightarrow> session \<Rightarrow> session" where
  "step (Edit e) s = setNote (onChangeText e (note_state s)) s"
| "step (Wait d) s =
     (let s' = s\<lparr>clock := clock s + d\<rparr>
      in case timer s of
           None \<Rightarrow> s'
         | Some (t, n) \<Rightarrow> if t \<le> clock s + d then saveNote n (s'\<lparr>timer := None\<rparr>) else s')"
| "step (AddDone data) s =
     (if adds_pending s = 0 then s
      else saveNote_added data (s\<lparr>adds_pending := adds_pending s - 1\<rparr>))"
| "step (UpdateDone ok) s =
     (if updates_pending s = 0 then s else s\<lparr>updates_pending := updates_pending s - 1\<rparr>)"
| "step PressDelete s = (if mounted s then handleDelete s else s)"
| "step (DeleteDone ok) s =
     (if deletes_pending s = 0 then s
      else unmount (s\<lparr>deletes_pending := deletes_pending s - 1\<rparr>))"
| "step NavigateAway s = unmount s"

fun run :: "event list \<Rightarrow> session \<Rightarrow> session" where
  "run [] s = s"
| "run (e # es) s = run es (step e s)"

fun burst :: "edit \<Rightarrow> (nat \<times> edit) list \<Rightarrow> event list" where
  "burst e [] = [Edit e]"
| "burst e ((d, e') # ges) = Edit e # Wait d # burst e' ges"

text \<open>
  A request resolves through \<open>AddDone\<close>, \<open>UpdateDone\<close> or \<open>DeleteDone\<close>; such an event
  without a request of its kind in flight cannot happen and leaves the state as it is.
  \<open>AddDone data\<close> carries \<^verbatim>\<open>result.data\<close> of the resolved \<^verbatim>\<open>addNote\<close> call, \<open>None\<close>
  when the result holds an error instead. Setting the header title through
  \<^verbatim>\<open>navigation.setOptions\<close> is not part of the state; of line 127 the model keeps the read
  of \<^verbatim>\<open>result.data.title\<close>.

  A burst is a first edit followed by further edits, each after a pause.
\<close>

text \<open>
  Two predicates for the invariant of a session whose note carries the id \<open>i\<close>: a request
  that is addressed to \<open>i\<close> and is not an add, and a state in which no add is in flight
  while the note on screen and the note captured by the pending timeout both carry \<open>i\<close>.
\<close>

definition saves_as :: "string \<Rightarrow> request \<Rightarrow> bool" where
  "saves_as i r = (case r of UpdateNote j t c \<Rightarrow> j = i | DeleteNote j \<Rightarrow> j = i | AddNote t c \<Rightarrow> False)"

definition persisted_as :: "string \<Rightarrow> session \<Rightarrow> bool" where
  "persisted_as i s \<longleftrightarrow> adds_pending s = 0
     \<and> (mounted s \<longrightarrow> truthy_id (note_state s) = Some i)
     \<and> (case timer s of None \<Rightarrow> True | Some (t, n) \<Rightarrow> truthy_id n = Some i)"

section \<open>The note store\<close>

text \<open>
  The hooks \<^verbatim>\<open>useSearchNotesQuery\<close>, \<^verbatim>\<open>useAddNoteMutation\<close>, \<^verbatim>\<open>useUpdateNoteMutation\<close>,
  \<^verbatim>\<open>useDeleteNoteMutation\<close> and \<^verbatim>\<open>useDeleteAllNotesMutation\<close> are imported from
  \<^verbatim>\<open>./db\<close>, which is not among the sources. What they compute is modelled here from the
  specification (sections 3, 4.1 to 4.3, 6 and 7). The Note Index is a list in insertion
  order; the outcome of the Persistence Backend's write is an argument of each mutation.
\<close>

text \<open>Modelled from the spec: a persisted Note of section 3 (the records \<^verbatim>\<open>./db\<close> stores),
  with its identifier, title and content all present.\<close>

record stored_note =
  sid :: string
  stitle :: string
  scontent :: string

text \<open>Modelled from the spec: the error taxonomy of section 7, raised by the absent
  \<^verbatim>\<open>./db\<close>.\<close>

datatype store_error = StorageUnavailable | PersistenceError | NotFound

text \<open>Modelled from the spec: the case folding of the matching rule ("case-insensitive"),
  which the absent search query of \<^verbatim>\<open>./db\<close> applies. Strings are byte lists, so the
  letters folded are the ASCII ones.\<close>

definition lower_char :: "char \<Rightarrow> char" where
  "lower_char c = (let k = (of_char c :: nat) in if 65 \<le> k \<and> k \<le> 90 then char_of (k + 32) else c)"

text \<open>Modelled from the spec: case folding of a whole string, for the absent search query.\<close>

definition lower :: "string \<Rightarrow> string" where
  "lower s = map lower_char s"

text \<open>Modelled from the spec: the test that a text begins with the query, a step of the
  substring test of the absent search query.\<close>

fun starts_with :: "string \<Rightarrow> string \<Rightarrow> bool" where
  "starts_with s [] = True"
| "starts_with [] (c # q) = False"
| "starts_with (x # s) (c # q) = (x = c \<and> starts_with s q)"

text \<open>Modelled from the spec: "is a substring of", scanning the text from each position,
  for the absent search query.\<close>

fun contains :: "string \<Rightarrow> string \<Rightarrow> bool" where
  "contains [] q = (q = [])"
| "contains (x # s) q = (starts_with (x # s) q \<or> contains s q)"

text \<open>Modelled from the spec: the matching rule of section 3, "a note matches if the query
  (case-insensitive) is a substring of title or of content", for the absent search query.\<close>

definition matches :: "string \<Rightarrow> stored_note \<Rightarrow> bool" where
  "matches q n = (contains (lower (stitle n)) (lower q) \<or> contains (lower (scontent n)) (lower q))"

text \<open>Modelled from the spec: \<^verbatim>\<open>search(query)\<close> of the absent \<^verbatim>\<open>./db\<close>, a linear scan
  that filters the in-memory Note Index (section 4.2).\<close>

definition search :: "string \<Rightarrow> stored_note list \<Rightarrow> stored_note list" where
  "search q idx = filter (matches q) idx"

text \<open>Modelled from the spec: \<^verbatim>\<open>add(title, content)\<close> of the absent Mutation Pipeline
  (section 4.3). \<open>r\<close> is what the backend's insert returned: the new identifier, or
  nothing when the write failed. On success the note is inserted at the end of the index;
  on failure the index is unchanged.\<close>

definition create :: "string option \<Rightarrow> string \<Rightarrow> string \<Rightarrow> stored_note list
    \<Rightarrow> (store_error + stored_note) \<times> stored_note list" where
  "create r t c idx = (case r of
       None \<Rightarrow> (Inl PersistenceError, idx)
     | Some i \<Rightarrow> (let n = \<lparr>sid = i, stitle = t, scontent = c\<rparr> in (Inr n, idx @ [n])))"

text \<open>Modelled from the spec: \<^verbatim>\<open>update(id, title, content)\<close> of the absent Mutation
  Pipeline. It fails with \<open>NotFound\<close> for an unknown id; when the backend write succeeds
  (\<open>ok\<close>) the record is replaced in place, otherwise the index is unchanged.\<close>

definition save :: "bool \<Rightarrow> string \<Rightarrow> string \<Rightarrow> string \<Rightarrow> stored_note list
    \<Rightarrow> (store_error + stored_note) \<times> stored_note list" where
  "save ok i t c idx =
     (if i \<notin> sid ` set idx then (Inl NotFound, idx)
      else if \<not> ok then (Inl PersistenceError, idx)
      else (let n = \<lparr>sid = i, stitle = t, scontent = c\<rparr>
            in (Inr n, map (\<lambda>m. if sid m = i then n else m) idx)))"

text \<open>Modelled from the spec: \<^verbatim>\<open>delete(id)\<close> of the absent Mutation Pipeline: a silent
  no-op when the id does not exist; otherwise the note is removed from the index once the
  backend write has succeeded (\<open>ok\<close>), and a failed write leaves the index unchanged.\<close>

definition remove :: "bool \<Rightarrow> string \<Rightarrow> stored_note list \<Rightarrow> (store_error + unit) \<times> stored_note list" where
  "remove ok i idx =
     (if i \<notin> sid ` set idx then (Inr (), idx)
      else if \<not> ok then (Inl PersistenceError, idx)
      else (Inr (), filter (\<lambda>m. sid m \<noteq> i) idx))"

text \<open>Modelled from the spec: \<^verbatim>\<open>deleteAll()\<close> of the absent Mutation Pipeline.\<close>

definition clearAll :: "bool \<Rightarrow> stored_note list \<Rightarrow> (store_error + unit) \<times> stored_note list" where
  "clearAll ok idx = (if ok then (Inr (), []) else (Inl PersistenceError, idx))"

text \<open>Modelled from the spec: the mutations a client can submit to the absent store, each
  with the outcome of its backend write, and their effect on the Note Index.\<close>

datatype mutation =
    Create "string option" string string
  | Save bool string string string
  | Remove bool string
  | ClearAll bool

text \<open>Modelled from the spec: the Note Index after one mutation of the absent store.\<close>

fun mutate :: "mutation \<Rightarrow> stored_note list \<Rightarrow> stored_note list" where
  "mutate (Create r t c) idx = snd (create r t c idx)"
| "mutate (Save ok i t c) idx = snd (save ok i t c idx)"
| "mutate (Remove ok i) idx = snd (remove ok i idx)"
| "mutate (ClearAll ok) idx = snd (clearAll ok idx)"

text \<open>Modelled from the spec: the Note Index after a sequence of mutations of the absent
  store, applied in the order they are issued (section 5).\<close>

fun mutate_all :: "mutation list \<Rightarrow> stored_note list \<Rightarrow> stored_note list" where
  "mutate_all [] idx = idx"
| "mutate_all (m # ms) idx = mutate_all ms (mutate m idx)"

text \<open>Modelled from the spec: the identifiers the backend assigned during a sequence of
  mutations of the absent store, in the order of the inserts.\<close>

fun insertions :: "mutation list \<Rightarrow> string list" where
  "insertions [] = []"
| "insertions (Create (Some i) t c # ms) = i # insertions ms"
| "insertions (m # ms) = insertions ms"

section \<open>Properties of the edit screen\<close>

subsection \<open>Basic facts\<close>

lemmas session_defs = setNote_def save_effect_def unmount_def saveNote_def saveNote_added_def
  handleDelete_def mount_def

lemmas note_defs = new_note_def onChangeText_def truthy_id_def spread_def get_title_def
  debounce_def save_request_def

lemma run_append: "run (es @ fs) s = run fs (run es s)"
  by (induction es arbitrary: s) auto

lemma issued_step_prefix: "prefix (issued s) (issued (step e s))"
  by (cases e) (auto simp: session_defs Let_def split: option.splits sum.splits)

lemma issued_run_prefix: "prefix (issued s) (issued (run es s))"
proof (induction es arbitrary: s)
  case Nil
  show ?case by simp
next
  case (Cons e es)
  have "prefix (issued s) (issued (step e s))" by (rule issued_step_prefix)
  also have "prefix (issued (step e s)) (issued (run es (step e s)))" by (rule Cons.IH)
  finally show ?case by simp
qed

lemma truthy_id_onChangeText: "truthy_id (onChangeText e n) = truthy_id n"
  by (cases e) (simp_all add: onChangeText_def truthy_id_def)

lemma truthy_id_fold: "truthy_id (fold onChangeText es n) = truthy_id n"
  by (induction es arbitrary: n) (simp_all add: truthy_id_onChangeText)

lemma fold_last_edit:
  "(case last (e # es) of
      Title t \<Rightarrow> title (fold onChangeText (e # es) n) = Some t
    | Content c \<Rightarrow> content (fold onChangeText (e # es) n) = Some c)"
proof (induction es arbitrary: e n)
  case Nil
  show ?case by (cases e) (simp_all add: onChangeText_def)
next
  case (Cons a es)
  have "last (e # a # es) = last (a # es)"
    and "fold onChangeText (e # a # es) n = fold onChangeText (a # es) (onChangeText e n)"
    by simp_all
  with Cons.IH[of a "onChangeText e n"] show ?case by (simp only:)
qed

subsection \<open>Debounce\<close>

lemma after_burst:
  assumes "mounted s" and "\<forall>(d, e) \<in> set ges. d < debounce"
  shows "mounted (run (burst e0 ges) s) \<and>
         issued (run (burst e0 ges) s) = issued s \<and>
         note_state (run (burst e0 ges) s) = fold onChangeText (e0 # map snd ges) (note_state s) \<and>
         timer (run (burst e0 ges) s) =
           Some (clock (run (burst e0 ges) s) + debounce, note_state (run (burst e0 ges) s))"
  using assms
proof (induction e0 ges arbitrary: s rule: burst.induct)
  case (1 e)
  then show ?case by (simp add: setNote_def save_effect_def)
next
  case (2 e d e' ges)
  let ?s1 = "step (Wait d) (step (Edit e) s)"
  have a: "mounted ?s1" "issued ?s1 = issued s" "note_state ?s1 = onChangeText e (note_state s)"
    using 2(2,3) by (simp_all add: setNote_def save_effect_def Let_def)
  have b: "\<forall>(d, e) \<in> set ges. d < debounce" using 2(3) by simp
  from 2(1)[OF a(1) b] show ?case using a by simp
qed

lemma nid_fold: "nid (fold onChangeText es n) = nid n"
proof (induction es arbitrary: n)
  case Nil
  show ?case by simp
next
  case (Cons e es)
  have "nid (onChangeText e n) = nid n" by (cases e) (simp_all add: onChangeText_def)
  with Cons.IH[of "onChangeText e n"] show ?case by simp
qed

lemma save_request_nid:
  "save_request n = (case nid n of
       None \<Rightarrow> AddNote (title n) (content n)
     | Some i \<Rightarrow> if i = [] then AddNote (title n) (content n)
                else UpdateNote i (title n) (content n))"
  by (simp add: save_request_def truthy_id_def split: option.splits)

lemma wait_quiet:
  assumes "timer s = Some (clock s + debounce, n)"
  shows "d < debounce \<Longrightarrow> issued (step (Wait d) s) = issued s"
    and "debounce \<le> d \<Longrightarrow> issued (step (Wait d) s) = issued s @ [save_request n]"
    and "debounce \<le> d \<Longrightarrow> timer (step (Wait d) s) = None"
  using assms by (auto simp: saveNote_def save_request_def Let_def split: option.splits)

lemma idle_step:
  assumes "timer s = None" and "e \<in> range Wait \<union> range UpdateDone"
  shows "timer (step e s) = None \<and> issued (step e s) = issued s"
  using assms by (auto simp: Let_def)

lemma idle_run:
  assumes "timer s = None" and "set es \<subseteq> range Wait \<union> range UpdateDone"
  shows "issued (run es s) = issued s"
  using assms
proof (induction es arbitrary: s)
  case Nil
  show ?case by simp
next
  case (Cons e es)
  have e: "e \<in> range Wait \<union> range UpdateDone" and es: "set es \<subseteq> range Wait \<union> range UpdateDone"
    using Cons.prems(2) by simp_all
  from idle_step[OF Cons.prems(1) e] Cons.IH[of "step e s", OF _ es] show ?case by simp
qed

text \<open>
  C1, as the claim states it, fails for a new draft. Three edits less than 500 ms apart are
  followed by 500 ms of quiet, and one add goes out. When that add resolves, the add branch
  of \<^verbatim>\<open>saveNote\<close> calls \<^verbatim>\<open>setNote\<close>, the save effect runs again, and 500 ms later the same
  title and content go out a second time, as an update: two backend writes for one burst.
\<close>

theorem coalescing_second_write_counterexample:
  "issued (run [Edit (Content ''a''), Wait 499, Edit (Content ''ab''), Wait 120,
                Edit (Title ''t''), Wait 500,
                AddDone (Some \<lparr>nid = Some ''1'', title = Some ''t'', content = Some ''ab''\<rparr>),
                Wait 500] (mount new_note))
   = [AddNote (Some ''t'') (Some ''ab''), UpdateNote ''1'' (Some ''t'') (Some ''ab'')]"
  by (simp add: session_defs note_defs Let_def)

text \<open>
  C1, amended. A burst of edits on a mounted screen, each less than 500 ms after the one
  before, issues no request at any point of the burst and leaves the note with every edit
  applied, the last one on top. Waiting less than 500 ms more still issues nothing. Once
  500 ms have passed since the last edit, exactly one request has been issued, and no
  other is issued while only time passes and updates resolve. That request carries the
  title and content of the note after the last edit; it is an add when the session's note
  has no id or the empty string as id, and an update with the id otherwise. What follows
  the resolution of an add is not part of the statement.
\<close>

theorem debounce_coalescing:
  fixes s :: session and e0 :: edit and ges :: "(nat \<times> edit) list"
  defines "s' \<equiv> run (burst e0 ges) s"
  defines "n \<equiv> fold onChangeText (e0 # map snd ges) (note_state s)"
  defines "r \<equiv> (case nid (note_state s) of
       None \<Rightarrow> AddNote (title n) (content n)
     | Some i \<Rightarrow> if i = [] then AddNote (title n) (content n)
                else UpdateNote i (title n) (content n))"
  assumes "mounted s" and "\<forall>(d, e) \<in> set ges. d < 500"
  shows "(\<forall>k. issued (run (take k (burst e0 ges)) s) = issued s)
       \<and> note_state s' = n
       \<and> (case last (e0 # map snd ges) of
            Title t \<Rightarrow> title n = Some t | Content c \<Rightarrow> content n = Some c)
       \<and> (\<forall>d. d < 500 \<longrightarrow> issued (step (Wait d) s') = issued s)
       \<and> (\<forall>d es. 500 \<le> d \<and> set es \<subseteq> range Wait \<union> range UpdateDone \<longrightarrow>
            issued (run (Wait d # es) s') = issued s @ [r])"
proof -
  have g: "\<forall>(d, e) \<in> set ges. d < debounce" using assms(5) by (simp add: debounce_def)
  note ab = after_burst[OF assms(4) g, of e0, folded s'_def n_def]
  have p: "issued (run (take k (burst e0 ges)) s) = issued s" for k
  proof -
    have "prefix (issued s) (issued (run (take k (burst e0 ges)) s))"
      by (rule issued_run_prefix)
    moreover have "prefix (issued (run (take k (burst e0 ges)) s)) (issued s')"
      using issued_run_prefix[of "run (take k (burst e0 ges)) s" "drop k (burst e0 ges)"]
      by (simp add: s'_def flip: run_append)
    ultimately show ?thesis using ab by (simp add: prefix_order.antisym)
  qed
  have t: "timer s' = Some (clock s' + debounce, n)" using ab by simp
  have l: "(case last (e0 # map snd ges) of
              Title t \<Rightarrow> title n = Some t | Content c \<Rightarrow> content n = Some c)"
    unfolding n_def by (rule fold_last_edit)
  have r: "save_request n = r"
  proof -
    have "nid n = nid (note_state s)" unfolding n_def by (rule nid_fold)
    then show ?thesis unfolding r_def by (simp add: save_request_nid)
  qed
  have w1: "\<forall>d. d < 500 \<longrightarrow> issued (step (Wait d) s') = issued s"
    using wait_quiet(1)[OF t] ab by (simp add: debounce_def)
  have w2: "issued (run (Wait d # es) s') = issued s @ [r]"
    if "500 \<le> d" and es: "set es \<subseteq> range Wait \<union> range UpdateDone" for d es
  proof -
    have d: "debounce \<le> d" using that(1) by (simp add: debounce_def)
    have "issued (run es (step (Wait d) s')) = issued (step (Wait d) s')"
      using wait_quiet(3)[OF t d] es by (rule idle_run)
    also have "\<dots> = issued s @ [r]" using wait_quiet(2)[OF t d] ab r by simp
    finally show ?thesis by simp
  qed
  show ?thesis using p ab l w1 w2 by blast
qed

text \<open>Witness for C1, amended: three edits on a new note, which are saved by one add, and
  one edit on a note that has the id "7", which is saved by one update whether or not the
  update resolves.\<close>

theorem debounce_coalescing_witness:
  "mounted (mount new_note)
   \<and> mounted (mount \<lparr>nid = Some ''7'', title = Some ''T'', content = Some ''c''\<rparr>)
   \<and> (499::nat) < 500 \<and> (120::nat) < 500
   \<and> issued (run [Edit (Content ''a''), Wait 499, Edit (Content ''ab''), Wait 120,
                   Edit (Title ''t''), Wait 499] (mount new_note)) = []
   \<and> issued (run [Edit (Content ''a''), Wait 499, Edit (Content ''ab''), Wait 120,
                   Edit (Title ''t''), Wait 500, Wait 2000] (mount new_note))
       = [AddNote (Some ''t'') (Some ''ab'')]
   \<and> issued (run [Edit (Content ''cd''), Wait 600, UpdateDone True, Wait 2000]
                (mount \<lparr>nid = Some ''7'', title = Some ''T'', content = Some ''c''\<rparr>))
       = [UpdateNote ''7'' (Some ''T'') (Some ''cd'')]"
proof -
  let ?n7 = "\<lparr>nid = Some ''7'', title = Some ''T'', content = Some ''c''\<rparr>"
  let ?ges = "[(499, Content ''ab''), (120, Title ''t'')] :: (nat \<times> edit) list"
  let ?f1 = "fold onChangeText (Content ''a'' # map snd ?ges) (note_state (mount new_note))"
  let ?f2 = "fold onChangeText (Content ''cd'' # map snd ([] :: (nat \<times> edit) list)) (note_state (mount ?n7))"
  have m: "mounted (mount new_note)" "mounted (mount ?n7)"
    by (simp_all add: mount_def save_effect_def)
  have g: "\<forall>(d, e) \<in> set ?ges. d < 500" by simp
  have g0: "\<forall>(d, e) \<in> set ([] :: (nat \<times> edit) list). d < 500" by simp
  have i: "issued (mount new_note) = []" "issued (mount ?n7) = []"
    by (simp_all add: mount_def save_effect_def)
  have r1: "(case nid (note_state (mount new_note)) of
           None \<Rightarrow> AddNote (title ?f1) (content ?f1)
         | Some i \<Rightarrow> if i = [] then AddNote (title ?f1) (content ?f1)
             else UpdateNote i (title ?f1) (content ?f1)) = AddNote (Some ''t'') (Some ''ab'')"
    by (simp add: mount_def save_effect_def new_note_def onChangeText_def)
  have r2: "(case nid (note_state (mount ?n7)) of
           None \<Rightarrow> AddNote (title ?f2) (content ?f2)
         | Some i \<Rightarrow> if i = [] then AddNote (title ?f2) (content ?f2)
             else UpdateNote i (title ?f2) (content ?f2)) = UpdateNote ''7'' (Some ''T'') (Some ''cd'')"
    by (simp add: mount_def save_effect_def onChangeText_def)
  have e1: "set [Wait 2000] \<subseteq> range Wait \<union> range UpdateDone"
    and e2: "set [UpdateDone True, Wait 2000] \<subseteq> range Wait \<union> range UpdateDone"
    by auto
  have h: "(499::nat) < 500" "(500::nat) \<le> 500" "(500::nat) \<le> 600" by simp_all
  note t1 = debounce_coalescing[OF m(1) g, of "Content ''a''"]
  note t2 = debounce_coalescing[OF m(2) g0, of "Content ''cd''"]
  from t1 h(1) have "issued (step (Wait 499) (run (burst (Content ''a'') ?ges) (mount new_note)))
      = issued (mount new_note)"
    by blast
  then have a: "issued (run [Edit (Content ''a''), Wait 499, Edit (Content ''ab''), Wait 120,
                   Edit (Title ''t''), Wait 499] (mount new_note)) = []"
    using i by simp
  from t1 h(2) e1 have "issued (run (Wait 500 # [Wait 2000]) (run (burst (Content ''a'') ?ges) (mount new_note)))
      = issued (mount new_note) @ [case nid (note_state (mount new_note)) of
           None \<Rightarrow> AddNote (title ?f1) (content ?f1)
         | Some i \<Rightarrow> if i = [] then AddNote (title ?f1) (content ?f1)
             else UpdateNote i (title ?f1) (content ?f1)]"
    by blast
  then have "issued (run (Wait 500 # [Wait 2000]) (run (burst (Content ''a'') ?ges) (mount new_note)))
      = [AddNote (Some ''t'') (Some ''ab'')]"
    unfolding r1 i by simp
  then have b: "issued (run [Edit (Content ''a''), Wait 499, Edit (Content ''ab''), Wait 120,
                   Edit (Title ''t''), Wait 500, Wait 2000] (mount new_note))
       = [AddNote (Some ''t'') (Some ''ab'')]"
    by simp
  from t2 h(3) e2 have "issued (run (Wait 600 # [UpdateDone True, Wait 2000]) (run (burst (Content ''cd'') []) (mount ?n7)))
      = issued (mount ?n7) @ [case nid (note_state (mount ?n7)) of
           None \<Rightarrow> AddNote (title ?f2) (content ?f2)
         | Some i \<Rightarrow> if i = [] then AddNote (title ?f2) (content ?f2)
             else UpdateNote i (title ?f2) (content ?f2)]"
    by blast
  then have "issued (run (Wait 600 # [UpdateDone True, Wait 2000]) (run (burst (Content ''cd'') []) (mount ?n7)))
      = [UpdateNote ''7'' (Some ''T'') (Some ''cd'')]"
    unfolding r2 i by simp
  then have c: "issued (run [Edit (Content ''cd''), Wait 600, UpdateDone True, Wait 2000] (mount ?n7))
       = [UpdateNote ''7'' (Some ''T'') (Some ''cd'')]"
    by simp
  show ?thesis using m a b c by simp
qed

text \<open>
  When the add of a new draft has resolved, \<^verbatim>\<open>setNote\<close> re-runs the save effect, so a
  further 500 ms later the same title and content go out once more, as an update.
\<close>

lemma add_completion_rearms:
  "issued (run [Edit (Content ''a''), Wait 500,
        AddDone (Some \<lparr>nid = Some ''1'', title = Some [], content = Some ''a''\<rparr>), Wait 500, Wait 5000]
        (mount new_note))
   = [AddNote (Some []) (Some ''a''), UpdateNote ''1'' (Some []) (Some ''a'')]"
  by (simp add: session_defs note_defs Let_def)

subsection \<open>Identity of the session's note\<close>

lemma persisted_step:
  assumes "persisted_as i s"
  shows "persisted_as i (step e s)
       \<and> (\<exists>ws. issued (step e s) = issued s @ ws \<and> list_all (saves_as i) ws)"
proof (cases e)
  case (Edit x)
  then show ?thesis using assms
    by (auto simp: persisted_as_def setNote_def save_effect_def truthy_id_onChangeText)
next
  case (Wait d)
  then show ?thesis using assms
    by (auto simp: persisted_as_def saveNote_def saves_as_def Let_def split: option.splits)
next
  case (AddDone x)
  then show ?thesis using assms by (simp add: persisted_as_def)
next
  case (UpdateDone x)
  then show ?thesis using assms by (simp add: persisted_as_def)
next
  case PressDelete
  then show ?thesis using assms
    by (auto simp: persisted_as_def handleDelete_def saves_as_def unmount_def split: option.splits)
next
  case (DeleteDone x)
  then show ?thesis using assms by (simp add: persisted_as_def unmount_def)
next
  case NavigateAway
  then show ?thesis using assms by (simp add: persisted_as_def unmount_def)
qed

lemma persisted_run:
  assumes "persisted_as i s"
  shows "persisted_as i (run es s)
       \<and> (\<exists>ws. issued (run es s) = issued s @ ws \<and> list_all (saves_as i) ws)"
  using assms
proof (induction es arbitrary: s)
  case Nil
  then show ?case by simp
next
  case (Cons e es)
  from persisted_step[OF Cons.prems, of e] obtain ws where
    a: "persisted_as i (step e s)" "issued (step e s) = issued s @ ws" "list_all (saves_as i) ws"
    by blast
  from Cons.IH[OF a(1)] obtain vs where
    b: "persisted_as i (run es (step e s))" "issued (run es (step e s)) = issued (step e s) @ vs"
       "list_all (saves_as i) vs"
    by blast
  have "issued (run (e # es) s) = issued s @ (ws @ vs)" using a b by simp
  moreover have "list_all (saves_as i) (ws @ vs)" using a b by simp
  ultimately show ?case using b(1) by auto
qed

lemma added_persisted:
  assumes "mounted s" "adds_pending s = 1" "nid d = Some i" "i \<noteq> []"
  shows "persisted_as i (step (AddDone (Some d)) s)"
    and "issued (step (AddDone (Some d)) s) = issued s"
  using assms
  by (simp_all add: persisted_as_def saveNote_added_def setNote_def save_effect_def spread_def
      get_title_def truthy_id_def Let_def)

text \<open>
  C2, as the claim states it, fails. A new draft is typed into, its add goes out after
  500 ms and is slow to resolve; the user types again, and 500 ms later the note on screen
  still has no id, so a second add goes out for the same session. When both have resolved,
  the note carries the id of the second add, and the next save is an update with that id,
  not with the id the first add assigned.
\<close>

theorem second_add_counterexample:
  "issued (run [Edit (Content ''a''), Wait 500, Edit (Content ''ab''), Wait 500,
        AddDone (Some \<lparr>nid = Some ''1'', title = Some [], content = Some ''a''\<rparr>),
        AddDone (Some \<lparr>nid = Some ''2'', title = Some [], content = Some ''ab''\<rparr>),
        Edit (Content ''abc''), Wait 500] (mount new_note))
   = [AddNote (Some []) (Some ''a''), AddNote (Some []) (Some ''ab''),
      UpdateNote ''2'' (Some []) (Some ''abc'')]"
  by (simp add: session_defs note_defs Let_def)

text \<open>
  C2, amended. When an add resolves with a note whose id is a non-empty string, on a
  mounted screen, and it was the only add in flight, then whatever happens afterwards
  (edits, pauses, resolved requests, the delete button, leaving the screen) every request
  the session issues from then on is an update with that id or the delete of that id:
  no other add is issued.
\<close>

theorem identity_after_add:
  assumes "mounted s" and "adds_pending s = 1" and "nid d = Some i" and "i \<noteq> []"
  shows "\<exists>ws. issued (run (AddDone (Some d) # es) s) = issued s @ ws
            \<and> (\<forall>r \<in> set ws. (\<exists>t c. r = UpdateNote i t c) \<or> r = DeleteNote i)"
proof -
  from persisted_run[OF added_persisted(1)[OF assms], of es] added_persisted(2)[OF assms]
  obtain ws where w: "issued (run (AddDone (Some d) # es) s) = issued s @ ws"
    "list_all (saves_as i) ws"
    by auto
  have "(\<exists>t c. r = UpdateNote i t c) \<or> r = DeleteNote i" if "r \<in> set ws" for r
    using w(2) that by (cases r) (auto simp: list_all_iff saves_as_def)
  with w(1) show ?thesis by blast
qed

text \<open>Witness for C2, amended: the add of a draft with content "a" resolves with id "1";
  the user then edits twice and deletes the note.\<close>

theorem identity_after_add_witness:
  "mounted (run [Edit (Content ''a''), Wait 500] (mount new_note))
   \<and> adds_pending (run [Edit (Content ''a''), Wait 500] (mount new_note)) = 1
   \<and> nid \<lparr>nid = Some ''1'', title = Some [], content = Some ''a''\<rparr> = Some ''1''
   \<and> ''1'' \<noteq> []
   \<and> (\<exists>ws. issued (run [AddDone (Some \<lparr>nid = Some ''1'', title = Some [], content = Some ''a''\<rparr>),
                           Edit (Content ''ab''), Wait 500, Edit (Title ''t''), PressDelete]
                       (run [Edit (Content ''a''), Wait 500] (mount new_note)))
             = issued (run [Edit (Content ''a''), Wait 500] (mount new_note)) @ ws
           \<and> (\<forall>r \<in> set ws. (\<exists>t c. r = UpdateNote ''1'' t c) \<or> r = DeleteNote ''1''))"
proof -
  let ?s = "run [Edit (Content ''a''), Wait 500] (mount new_note)"
  let ?d = "\<lparr>nid = Some ''1'', title = Some [], content = Some ''a''\<rparr>"
  have m: "mounted ?s" and p: "adds_pending ?s = 1"
    by (simp_all add: session_defs note_defs Let_def)
  have n: "nid ?d = Some ''1''" and e: "''1'' \<noteq> []" by simp_all
  from identity_after_add[OF m p n e] m p n e show ?thesis by blast
qed

subsection \<open>Edits while a save is in flight\<close>

text \<open>A resolved update changes neither the note on screen nor the pending timeout, so
  what was typed while it was in flight is what the next timeout saves.\<close>

lemma update_done_keeps_edits:
  "note_state (step (UpdateDone ok) s) = note_state s
   \<and> timer (step (UpdateDone ok) s) = timer s
   \<and> issued (step (UpdateDone ok) s) = issued s"
  by simp

lemma add_done_overwrites:
  assumes "mounted s" and "0 < adds_pending s"
  shows "note_state (run [Edit e, AddDone (Some d)] s) = d"
    and "timer (run [Edit e, AddDone (Some d)] s) = Some (clock s + debounce, d)"
  using assms by (simp_all add: session_defs note_defs Let_def)

text \<open>
  C3 at a failing input. The add of a new draft with content "a" is in flight when the user
  types "ab". The add then resolves with the note it saved, and \<^verbatim>\<open>setNote({ ...result.data })\<close>
  puts that note on screen in place of the one holding "ab". The next timeout saves the
  content "a" of the snapshot that was in flight; "ab" is never sent.
\<close>

theorem edit_during_add_overwritten:
  "note_state (run [Edit (Content ''a''), Wait 500, Edit (Content ''ab'')] (mount new_note))
     = \<lparr>nid = None, title = Some [], content = Some ''ab''\<rparr>
   \<and> note_state (run [Edit (Content ''a''), Wait 500, Edit (Content ''ab''),
        AddDone (Some \<lparr>nid = Some ''1'', title = Some [], content = Some ''a''\<rparr>)] (mount new_note))
     = \<lparr>nid = Some ''1'', title = Some [], content = Some ''a''\<rparr>
   \<and> issued (run [Edit (Content ''a''), Wait 500, Edit (Content ''ab''),
        AddDone (Some \<lparr>nid = Some ''1'', title = Some [], content = Some ''a''\<rparr>), Wait 500, Wait 5000]
        (mount new_note))
     = [AddNote (Some []) (Some ''a''), UpdateNote ''1'' (Some []) (Some ''a'')]"
  by (simp add: session_defs note_defs Let_def)

subsection \<open>A new note that is never edited\<close>

lemma gone_step:
  assumes "\<not> mounted s" "timer s = None"
  shows "\<not> mounted (step e s) \<and> timer (step e s) = None \<and> issued (step e s) = issued s"
  using assms by (cases e) (auto simp: session_defs Let_def split: sum.splits)

lemma gone_run:
  assumes "\<not> mounted s" "timer s = None"
  shows "issued (run es s) = issued s"
  using assms
proof (induction es arbitrary: s)
  case Nil
  show ?case by simp
next
  case (Cons e es)
  from gone_step[OF Cons.prems, of e] Cons.IH[of "step e s"] show ?case by simp
qed

text \<open>
  C4, as the claim states it, fails: the save effect also runs when the screen mounts, so
  a new note that is opened and left untouched for 500 ms is added to the backend with its
  empty title and content.
\<close>

theorem new_note_idle_counterexample:
  "issued (run [Wait 500] (mount new_note)) = [AddNote (Some []) (Some [])]"
  by (simp add: session_defs note_defs Let_def)

text \<open>
  C4, amended. A session opened on a new note arms the timeout when the screen mounts.
  With no edits, if the user leaves the screen or presses delete less than 500 ms after
  opening it, no request is ever issued, whatever happens afterwards: the draft is
  discarded without a backend write. If the screen stays open for 500 ms, exactly one
  add, carrying the empty title and content, is issued.
\<close>

theorem new_note_without_edits:
  "(\<forall>d es. d < 500 \<longrightarrow> issued (run (Wait d # NavigateAway # es) (mount new_note)) = [])
 \<and> (\<forall>d es. d < 500 \<longrightarrow> issued (run (Wait d # PressDelete # es) (mount new_note)) = [])
 \<and> (\<forall>d d'. 500 \<le> d \<longrightarrow>
       issued (run [Wait d, Wait d'] (mount new_note)) = [AddNote (Some []) (Some [])])"
proof -
  have a: "issued (run (Wait d # NavigateAway # es) (mount new_note)) = []" if "d < 500" for d es
  proof -
    let ?u = "step NavigateAway (step (Wait d) (mount new_note))"
    have "\<not> mounted ?u" "timer ?u = None" "issued ?u = []"
      using that by (simp_all add: session_defs note_defs Let_def)
    with gone_run[of ?u es] show ?thesis by simp
  qed
  have b: "issued (run (Wait d # PressDelete # es) (mount new_note)) = []" if "d < 500" for d es
  proof -
    let ?u = "step PressDelete (step (Wait d) (mount new_note))"
    have "\<not> mounted ?u" "timer ?u = None" "issued ?u = []"
      using that by (simp_all add: session_defs note_defs Let_def)
    with gone_run[of ?u es] show ?thesis by simp
  qed
  have c: "issued (run [Wait d, Wait d'] (mount new_note)) = [AddNote (Some []) (Some [])]"
    if "500 \<le> d" for d d'
    using that by (simp add: session_defs note_defs Let_def)
  show ?thesis using a b c by blast
qed

text \<open>Witness for C4, amended: leaving or deleting after 300 ms, and staying for 700 ms.\<close>

theorem new_note_without_edits_witness:
  "(300::nat) < 500 \<and> (500::nat) \<le> 700
   \<and> issued (run [Wait 300, NavigateAway, Wait 1000] (mount new_note)) = []
   \<and> issued (run [Wait 300, PressDelete, Wait 1000] (mount new_note)) = []
   \<and> issued (run [Wait 700, Wait 1000] (mount new_note)) = [AddNote (Some []) (Some [])]"
proof -
  have h: "(300::nat) < 500" "(500::nat) \<le> 700" by simp_all
  note t = new_note_without_edits
  from t have "\<forall>d es. d < 500 \<longrightarrow> issued (run (Wait d # NavigateAway # es) (mount new_note)) = []"
    by (rule conjunct1)
  with h(1) have a: "issued (run [Wait 300, NavigateAway, Wait 1000] (mount new_note)) = []"
    by blast
  from t have "\<forall>d es. d < 500 \<longrightarrow> issued (run (Wait d # PressDelete # es) (mount new_note)) = []"
    by blast
  with h(1) have b: "issued (run [Wait 300, PressDelete, Wait 1000] (mount new_note)) = []"
    by blast
  from t have "\<forall>d d'. 500 \<le> d \<longrightarrow>
      issued (run [Wait d, Wait d'] (mount new_note)) = [AddNote (Some []) (Some [])]"
    by blast
  with h(2) have c: "issued (run [Wait 700, Wait 1000] (mount new_note)) = [AddNote (Some []) (Some [])]"
    by blast
  show ?thesis using h a b c by blast
qed

subsection \<open>A failed add\<close>

text \<open>
  C5 at a failing input. A new draft with content "a" is added after 500 ms and the add
  fails, so \<^verbatim>\<open>result.data\<close> is undefined. The note on screen becomes the empty object: the
  content "a" is gone, and \<^verbatim>\<open>saveNote\<close> ends with an uncaught TypeError. The next timeout
  does retry, but what it adds is a note with undefined title and content.
\<close>

theorem add_failure_drops_content:
  "note_state (run [Edit (Content ''a''), Wait 500, AddDone None] (mount new_note))
     = \<lparr>nid = None, title = None, content = None\<rparr>
   \<and> uncaught (run [Edit (Content ''a''), Wait 500, AddDone None] (mount new_note)) = 1
   \<and> issued (run [Edit (Content ''a''), Wait 500, AddDone None, Wait 500] (mount new_note))
     = [AddNote (Some []) (Some ''a''), AddNote None None]"
  by (simp add: session_defs note_defs Let_def)

text \<open>
  C10. In the add branch of \<^verbatim>\<open>saveNote\<close> nothing checks \<^verbatim>\<open>result.data\<close>. Whenever an add
  resolves without data on a mounted screen, the spread is applied to the absent value and
  yields the empty object, which replaces the note on screen whatever title and content the
  draft had; the read of \<^verbatim>\<open>result.data.title\<close> throws a TypeError that nothing catches; and
  the save effect is armed again for the empty note. No request is issued at that moment.
\<close>

theorem add_failure_replaces_note:
  assumes "mounted s" and "0 < adds_pending s"
  shows "spread None = \<lparr>nid = None, title = None, content = None\<rparr>
       \<and> get_title None = Inl TypeError
       \<and> note_state (step (AddDone None) s) = spread None
       \<and> uncaught (step (AddDone None) s) = uncaught s + 1
       \<and> timer (step (AddDone None) s) = Some (clock s + 500, spread None)
       \<and> issued (step (AddDone None) s) = issued s"
  using assms by (simp add: session_defs note_defs Let_def)

text \<open>Witness for C10: the failed add of a draft whose content was "a".\<close>

theorem add_failure_replaces_note_witness:
  "mounted (run [Edit (Content ''a''), Wait 500] (mount new_note))
   \<and> 0 < adds_pending (run [Edit (Content ''a''), Wait 500] (mount new_note))
   \<and> content (note_state (run [Edit (Content ''a''), Wait 500] (mount new_note))) = Some ''a''
   \<and> note_state (run [Edit (Content ''a''), Wait 500, AddDone None] (mount new_note))
       = \<lparr>nid = None, title = None, content = None\<rparr>
   \<and> uncaught (run [Edit (Content ''a''), Wait 500, AddDone None] (mount new_note)) = 1"
proof -
  let ?s = "run [Edit (Content ''a''), Wait 500] (mount new_note)"
  have m: "mounted ?s" and p: "0 < adds_pending ?s" and u: "uncaught ?s = 0"
    and c: "content (note_state ?s) = Some ''a''"
    by (simp_all add: session_defs note_defs Let_def)
  have r: "run [Edit (Content ''a''), Wait 500, AddDone None] (mount new_note) = step (AddDone None) ?s"
    by simp
  from add_failure_replaces_note[OF m p] show ?thesis
    unfolding r using m p u c by simp
qed

section \<open>Properties of the note store\<close>

subsection \<open>Search\<close>

lemma starts_with_prefix: "starts_with s q \<longleftrightarrow> prefix q s"
  by (induction s q rule: starts_with.induct) auto

lemma contains_iff: "contains s q \<longleftrightarrow> (\<exists>xs ys. s = xs @ q @ ys)"
proof (induction s)
  case Nil
  show ?case by auto
next
  case (Cons x s)
  have "(\<exists>xs ys. x # s = xs @ q @ ys) \<longleftrightarrow> prefix q (x # s) \<or> (\<exists>xs ys. s = xs @ q @ ys)"
    by (auto simp: prefix_def Cons_eq_append_conv)
  with Cons.IH show ?case by (simp add: starts_with_prefix del: starts_with.simps)
qed

lemma contains_empty: "contains s []"
  by (induction s) auto

lemma search_example:
  "search ''XY'' [\<lparr>sid = ''1'', stitle = ''A'', scontent = ''axYz''\<rparr>,
                  \<lparr>sid = ''2'', stitle = ''B'', scontent = ''y''\<rparr>]
   = [\<lparr>sid = ''1'', stitle = ''A'', scontent = ''axYz''\<rparr>]"
  by code_simp

text \<open>
  C6. For every query \<open>q\<close> and every list \<open>S\<close> of stored notes, \<open>search q S\<close> is exactly the
  notes of \<open>S\<close>, in their order, whose case-folded title or case-folded content has the
  case-folded query as a substring; and the search for the empty string returns all of \<open>S\<close>.
\<close>

theorem search_exact:
  "search q S = filter (\<lambda>n. (\<exists>xs ys. lower (stitle n) = xs @ lower q @ ys)
                          \<or> (\<exists>xs ys. lower (scontent n) = xs @ lower q @ ys)) S
   \<and> search [] S = S"
proof -
  have "matches q = (\<lambda>n. (\<exists>xs ys. lower (stitle n) = xs @ lower q @ ys)
                          \<or> (\<exists>xs ys. lower (scontent n) = xs @ lower q @ ys))"
    by (rule ext) (simp add: matches_def contains_iff)
  moreover have "matches [] = (\<lambda>n. True)"
    by (rule ext) (simp add: matches_def lower_def contains_empty)
  ultimately show ?thesis by (simp add: search_def)
qed

subsection \<open>Deleting\<close>

text \<open>
  C8. After a \<open>remove\<close> of an id that returned without error, a second \<open>remove\<close> of the
  same id returns without error and leaves the Note Index as the first call left it,
  whatever the backend would answer; and a \<open>remove\<close> of an id that is not in the index
  returns without error and changes nothing.
\<close>

theorem remove_idempotent:
  "(fst (remove ok1 i idx) = Inr () \<longrightarrow>
      remove ok2 i (snd (remove ok1 i idx)) = (Inr (), snd (remove ok1 i idx)))
   \<and> (i \<notin> sid ` set idx \<longrightarrow> remove ok i idx = (Inr (), idx))"
  by (auto simp: remove_def)

text \<open>Witness for C8: note "1" is removed twice from an index of two notes, and the
  unknown id "3" is removed from an index of one.\<close>

theorem remove_idempotent_witness:
  "fst (remove True ''1'' [\<lparr>sid = ''1'', stitle = ''A'', scontent = ''x''\<rparr>,
                           \<lparr>sid = ''2'', stitle = ''B'', scontent = ''y''\<rparr>]) = Inr ()
   \<and> remove False ''1'' (snd (remove True ''1'' [\<lparr>sid = ''1'', stitle = ''A'', scontent = ''x''\<rparr>,
                                               \<lparr>sid = ''2'', stitle = ''B'', scontent = ''y''\<rparr>]))
       = (Inr (), [\<lparr>sid = ''2'', stitle = ''B'', scontent = ''y''\<rparr>])
   \<and> ''3'' \<notin> sid ` set [\<lparr>sid = ''1'', stitle = ''A'', scontent = ''x''\<rparr>]
   \<and> remove False ''3'' [\<lparr>sid = ''1'', stitle = ''A'', scontent = ''x''\<rparr>]
       = (Inr (), [\<lparr>sid = ''1'', stitle = ''A'', scontent = ''x''\<rparr>])"
proof -
  let ?idx = "[\<lparr>sid = ''1'', stitle = ''A'', scontent = ''x''\<rparr>,
               \<lparr>sid = ''2'', stitle = ''B'', scontent = ''y''\<rparr>]"
  let ?one = "[\<lparr>sid = ''1'', stitle = ''A'', scontent = ''x''\<rparr>]"
  have a: "fst (remove True ''1'' ?idx) = Inr ()" by (simp add: remove_def)
  have s: "snd (remove True ''1'' ?idx) = [\<lparr>sid = ''2'', stitle = ''B'', scontent = ''y''\<rparr>]"
    by (simp add: remove_def)
  have b: "''3'' \<notin> sid ` set ?one" by simp
  from remove_idempotent[of True "''1''" ?idx False] a
  have "remove False ''1'' (snd (remove True ''1'' ?idx)) = (Inr (), snd (remove True ''1'' ?idx))"
    by blast
  moreover from remove_idempotent[of True "''3''" ?one False False] b
  have "remove False ''3'' ?one = (Inr (), ?one)"
    by blast
  ultimately show ?thesis using a b s by simp
qed

subsection \<open>Order of the results\<close>

lemma save_ids: "map sid (snd (save ok j t c idx)) = map sid idx"
  by (simp add: save_def Let_def comp_def cong: map_cong)

lemma mutate_ids: "subseq (map sid (mutate m idx)) (map sid idx @ insertions [m])"
proof (cases m)
  case (Create r t c)
  then show ?thesis by (cases r) (simp_all add: create_def Let_def)
next
  case (Save ok i t c)
  with save_ids[of ok i t c idx] show ?thesis by simp
next
  case (Remove ok i)
  then show ?thesis by (simp add: remove_def subseq_map)
next
  case (ClearAll ok)
  then show ?thesis by (simp add: clearAll_def)
qed

lemma insertions_Cons: "insertions (m # ms) = insertions [m] @ insertions ms"
  by (induction "m # ms" rule: insertions.induct) auto

lemma mutate_all_ids: "subseq (map sid (mutate_all ms idx)) (map sid idx @ insertions ms)"
proof (induction ms arbitrary: idx)
  case Nil
  show ?case by simp
next
  case (Cons m ms)
  have "subseq (map sid (mutate_all ms (mutate m idx))) (map sid (mutate m idx) @ insertions ms)"
    by (rule Cons.IH)
  also have "subseq (map sid (mutate m idx) @ insertions ms)
                    ((map sid idx @ insertions [m]) @ insertions ms)"
    using mutate_ids[of m idx] by (rule list_emb_append_mono) simp
  finally show ?case using insertions_Cons[of m ms] by simp
qed

lemma mutate_example:
  "search ''x'' (mutate_all [Create (Some ''1'') ''A'' ''x'', Create (Some ''2'') ''B'' ''XY'',
         Create (Some ''3'') ''C'' ''z'', Save True ''1'' ''A'' ''xz'', Remove True ''3''] [])
   = [\<lparr>sid = ''1'', stitle = ''A'', scontent = ''xz''\<rparr>, \<lparr>sid = ''2'', stitle = ''B'', scontent = ''XY''\<rparr>]"
  by code_simp

text \<open>
  C9. After any sequence of mutations on an empty store, the notes a search returns come
  in the order in which their ids were inserted; a search result keeps the order of the
  Note Index; a successful add puts the new note at the end of the index; and an update
  leaves every id at its position, a successful one putting the new record at the
  position of the note it replaces.
\<close>

theorem result_order_is_insertion_order:
  "subseq (map sid (search q (mutate_all ms []))) (insertions ms)
   \<and> subseq (search q idx) idx
   \<and> create (Some i) t c idx
       = (Inr \<lparr>sid = i, stitle = t, scontent = c\<rparr>, idx @ [\<lparr>sid = i, stitle = t, scontent = c\<rparr>])
   \<and> map sid (snd (save ok j t c idx)) = map sid idx
   \<and> (\<forall>k < length idx. sid (idx ! k) = j \<longrightarrow>
         fst (save True j t c idx) = Inr \<lparr>sid = j, stitle = t, scontent = c\<rparr>
       \<and> snd (save True j t c idx) ! k = \<lparr>sid = j, stitle = t, scontent = c\<rparr>)"
proof -
  have "subseq (map sid (search q (mutate_all ms []))) (map sid (mutate_all ms []))"
    by (simp add: search_def subseq_map)
  also have "subseq (map sid (mutate_all ms [])) (insertions ms)"
    using mutate_all_ids[of ms "[]"] by simp
  finally have a: "subseq (map sid (search q (mutate_all ms []))) (insertions ms)" .
  have b: "subseq (search q idx) idx" by (simp add: search_def)
  have c: "create (Some i) t c idx
       = (Inr \<lparr>sid = i, stitle = t, scontent = c\<rparr>, idx @ [\<lparr>sid = i, stitle = t, scontent = c\<rparr>])"
    by (simp add: create_def Let_def)
  have d: "map sid (snd (save ok j t c idx)) = map sid idx"
    by (rule save_ids)
  have e: "\<forall>k < length idx. sid (idx ! k) = j \<longrightarrow>
         fst (save True j t c idx) = Inr \<lparr>sid = j, stitle = t, scontent = c\<rparr>
       \<and> snd (save True j t c idx) ! k = \<lparr>sid = j, stitle = t, scontent = c\<rparr>"
    by (auto simp: save_def Let_def)
  show ?thesis using a b c d e by blast
qed

text \<open>Witness for C9: a store of two notes, and a run that inserts two notes, updates the
  first and removes it.\<close>

theorem result_order_is_insertion_order_witness:
  "(0::nat) < length [\<lparr>sid = ''1'', stitle = ''A'', scontent = ''x''\<rparr>, \<lparr>sid = ''2'', stitle = ''B'', scontent = ''xy''\<rparr>]
   \<and> sid ([\<lparr>sid = ''1'', stitle = ''A'', scontent = ''x''\<rparr>, \<lparr>sid = ''2'', stitle = ''B'', scontent = ''xy''\<rparr>] ! 0) = ''1''
   \<and> snd (save True ''1'' ''T'' ''c'' [\<lparr>sid = ''1'', stitle = ''A'', scontent = ''x''\<rparr>, \<lparr>sid = ''2'', stitle = ''B'', scontent = ''xy''\<rparr>]) ! 0
       = \<lparr>sid = ''1'', stitle = ''T'', scontent = ''c''\<rparr>
   \<and> subseq (map sid (search ''x'' (mutate_all [Create (Some ''1'') ''A'' ''x'', Create (Some ''2'') ''B'' ''xy'',
         Save True ''1'' ''A'' ''xz'', Remove True ''1''] []))) [''1'', ''2'']"
proof -
  let ?idx = "[\<lparr>sid = ''1'', stitle = ''A'', scontent = ''x''\<rparr>, \<lparr>sid = ''2'', stitle = ''B'', scontent = ''xy''\<rparr>]"
  let ?ms = "[Create (Some ''1'') ''A'' ''x'', Create (Some ''2'') ''B'' ''xy'',
         Save True ''1'' ''A'' ''xz'', Remove True ''1'']"
  note t = result_order_is_insertion_order[of "''x''" ?ms ?idx "''3''" "''T''" "''c''" True "''1''"]
  have h: "(0::nat) < length ?idx" "sid (?idx ! 0) = ''1''" by simp_all
  have i: "insertions ?ms = [''1'', ''2'']" by simp
  from t have "\<forall>k < length ?idx. sid (?idx ! k) = ''1'' \<longrightarrow>
         fst (save True ''1'' ''T'' ''c'' ?idx) = Inr \<lparr>sid = ''1'', stitle = ''T'', scontent = ''c''\<rparr>
       \<and> snd (save True ''1'' ''T'' ''c'' ?idx) ! k = \<lparr>sid = ''1'', stitle = ''T'', scontent = ''c''\<rparr>"
    by blast
  with h have a: "snd (save True ''1'' ''T'' ''c'' ?idx) ! 0 = \<lparr>sid = ''1'', stitle = ''T'', scontent = ''c''\<rparr>"
    by blast
  from t have "subseq (map sid (search ''x'' (mutate_all ?ms []))) (insertions ?ms)"
    by blast
  then have b: "subseq (map sid (search ''x'' (mutate_all ?ms []))) [''1'', ''2'']"
    unfolding i .
  show ?thesis using h a b by blast
qed

end
